theory Spec2Isabelle
  imports
    Complex_Main
    "HOL-Library.Char_ord"
    "HOL-Library.List_Lexorder"
    "HOL-Library.AList"
    "HOL-Library.Log_Nat"
begin

section \<open>Data model\<close>

text \<open>
  The dashboard computes on pandas data frames whose numeric columns are float64. A finite
  float is a rational number, so the model keeps every number as a \<^typ>\<open>rat\<close>;
  comparisons of floats are exact and are those of \<^typ>\<open>rat\<close>. The budget bookkeeping of
  the optimizer, where the source multiplies and subtracts floats over and over, rounds
  every result to double precision (\<open>float64\<close> below). The ceiling of the optimizer and
  the ratios of the aggregator are kept as the exact quotients. The unguarded division
  \<^verbatim>\<open>Total_Calls / Days_Active\<close> of the optimizer does not raise on numpy scalars but
  yields an infinity or a NaN, which the type \<open>npfloat\<close> below makes explicit. Infinities
  and NaN as table entries, and results beyond the largest double, are outside the model.
\<close>

text \<open>
  One row of the campaign sheet as the loaders return it. \<^verbatim>\<open>pd.to_datetime\<close> with
  \<^verbatim>\<open>errors="coerce"\<close> turns a malformed date into NaT, here \<^term>\<open>None\<close>; a valid date
  is a day number. The columns \<^verbatim>\<open>Lead Cost\<close>, \<^verbatim>\<open>Total Calls\<close>, \<^verbatim>\<open>Paid Calls\<close> and
  \<^verbatim>\<open># Unique Sales\<close> are written with underscores.
\<close>

record daily_record =
  Date :: "nat option"
  Agency :: string
  Campaign :: string
  Revenue :: rat
  Lead_Cost :: rat
  Total_Calls_daily :: rat
  Paid_Calls :: rat
  Unique_Sales :: rat

text \<open>
  One row of the campaign statistics table. \<open>Campaign_key\<close> is the index label of the
  row (the group key); the other fields are the columns named in the source.
\<close>

record campaign_row =
  Campaign_key :: string
  Total_Revenue :: rat
  Avg_Daily_Revenue :: rat
  Total_Cost :: rat
  Avg_Daily_Cost :: rat
  Total_Calls :: rat
  Total_Paid_Calls :: rat
  Total_Sales :: rat
  Days_Active :: int
  ROAS :: rat
  Cost_Per_Call :: rat
  Revenue_Per_Call :: rat
  Conversion_Rate :: rat
  Profit_Per_Call :: rat

text \<open>The allocation is a Python dict: keys in insertion order, one value per key.\<close>

type_synonym allocation = "(string \<times> int) list"

datatype error = ValueError

text \<open>
  What a call of \<^verbatim>\<open>optimize_budget\<close> does when it comes back: it raises, or it returns
  the pair of the allocation (\<^term>\<open>None\<close> for Python's \<^verbatim>\<open>None\<close>) and the leftover budget.
\<close>

datatype outcome = Raises error | Returns "allocation option" rat

section \<open>Loading\<close>

text \<open>
  The three loaders end with \<^verbatim>\<open>df.dropna(subset=["Date"])\<close>: rows whose date did not
  parse are removed before anything else sees the frame.
\<close>

definition dropna_Date :: "daily_record list \<Rightarrow> daily_record list" where
  "dropna_Date df = filter (\<lambda>r. Date r \<noteq> None) df"

section \<open>Metrics aggregator\<close>

text \<open>\<^verbatim>\<open>Series.replace(old, new)\<close> on one value.\<close>

definition replace_value :: "rat \<Rightarrow> rat \<Rightarrow> rat \<Rightarrow> rat" where
  "replace_value old new x = (if x = old then new else x)"

text \<open>
  \<^verbatim>\<open>if agency and agency != "All": df = df[df["Agency"] == agency]\<close>. The default
  \<^verbatim>\<open>None\<close> and the empty string are falsy and leave the frame as it is.
\<close>

definition filter_agency :: "string option \<Rightarrow> daily_record list \<Rightarrow> daily_record list" where
  "filter_agency agency df =
     (case agency of
        None \<Rightarrow> df
      | Some a \<Rightarrow> if a \<noteq> [] \<and> a \<noteq> ''All'' then filter (\<lambda>r. Agency r = a) df else df)"

text \<open>\<^verbatim>\<open>groupby("Campaign")\<close> yields one group per distinct key, keys in ascending order.\<close>

definition group_keys :: "daily_record list \<Rightarrow> string list" where
  "group_keys df = sort (remdups (map Campaign df))"

definition group_rows :: "daily_record list \<Rightarrow> string \<Rightarrow> daily_record list" where
  "group_rows df k = filter (\<lambda>r. Campaign r = k) df"

text \<open>
  The aggregation of one group \<open>g\<close> with key \<open>k\<close> followed by the five derived columns.
  \<^verbatim>\<open>"sum"\<close> adds the column, \<^verbatim>\<open>"mean"\<close> divides the sum by the number of rows of the
  group, and \<^verbatim>\<open>"count"\<close> on \<^verbatim>\<open>Date\<close> counts the rows whose date is not missing.
\<close>

definition group_metrics :: "string \<Rightarrow> daily_record list \<Rightarrow> campaign_row" where
  "group_metrics k g =
     (let total_revenue = sum_list (map Revenue g);
          total_cost = sum_list (map Lead_Cost g);
          total_calls = sum_list (map Total_Calls_daily g);
          total_paid_calls = sum_list (map Paid_Calls g);
          total_sales = sum_list (map Unique_Sales g);
          roas = total_revenue / replace_value 0 1 total_cost;
          cost_per_call = total_cost / replace_value 0 1 total_paid_calls;
          revenue_per_call = total_revenue / replace_value 0 1 total_calls
      in \<lparr> Campaign_key = k,
           Total_Revenue = total_revenue,
           Avg_Daily_Revenue = total_revenue / of_nat (length g),
           Total_Cost = total_cost,
           Avg_Daily_Cost = total_cost / of_nat (length g),
           Total_Calls = total_calls,
           Total_Paid_Calls = total_paid_calls,
           Total_Sales = total_sales,
           Days_Active = int (length (filter (\<lambda>r. Date r \<noteq> None) g)),
           ROAS = roas,
           Cost_Per_Call = cost_per_call,
           Revenue_Per_Call = revenue_per_call,
           Conversion_Rate = total_sales / replace_value 0 1 total_calls * 100,
           Profit_Per_Call = revenue_per_call - cost_per_call \<rparr>)"

definition calculate_campaign_metrics ::
  "daily_record list \<Rightarrow> string option \<Rightarrow> campaign_row list" where
  "calculate_campaign_metrics df agency =
     (let df = filter_agency agency df
      in map (\<lambda>k. group_metrics k (group_rows df k)) (group_keys df))"

section \<open>Budget optimizer\<close>

subsection \<open>The capacity ceiling\<close>

text \<open>
  A numpy float: a finite value, an infinity or NaN. Dividing by zero gives an infinity
  of the sign of the numerator, and NaN for \<open>0 / 0\<close>; an infinity times a nonzero number is
  an infinity, NaN stays NaN, and every comparison with NaN is false.
\<close>

datatype npfloat = Finite rat | PosInf | NegInf | NaN

definition true_divide :: "rat \<Rightarrow> rat \<Rightarrow> npfloat" where
  "true_divide a b =
     (if b \<noteq> 0 then Finite (a / b)
      else if 0 < a then PosInf
      else if a < 0 then NegInf
      else NaN)"

fun np_times :: "npfloat \<Rightarrow> rat \<Rightarrow> npfloat" where
  "np_times (Finite x) k = Finite (x * k)"
| "np_times PosInf k = (if 0 < k then PosInf else if k < 0 then NegInf else NaN)"
| "np_times NegInf k = (if 0 < k then NegInf else if k < 0 then PosInf else NaN)"
| "np_times NaN k = NaN"

fun np_less :: "int \<Rightarrow> npfloat \<Rightarrow> bool" where
  "np_less n (Finite x) = (of_int n < x)"
| "np_less n PosInf = True"
| "np_less n NegInf = False"
| "np_less n NaN = False"

text \<open>
  \<^verbatim>\<open>avg_daily = Total_Calls / Days_Active; max_calls = avg_daily * 1.5\<close>
\<close>

definition max_calls :: "campaign_row \<Rightarrow> npfloat" where
  "max_calls r =
     (let avg_daily = true_divide (Total_Calls r) (of_int (Days_Active r))
      in np_times avg_daily (3 / 2))"

subsection \<open>The allocation dict\<close>

text \<open>\<^verbatim>\<open>allocation.get(campaign, default)\<close>\<close>

definition get :: "allocation \<Rightarrow> string \<Rightarrow> int \<Rightarrow> int" where
  "get allocation campaign dflt =
     (case map_of allocation campaign of None \<Rightarrow> dflt | Some v \<Rightarrow> v)"

subsection \<open>Filtering and ranking\<close>

text \<open>
  \<^verbatim>\<open>campaign_stats[campaign_stats["ROAS"] >= min_roas]\<close>, then
  \<^verbatim>\<open>sort_values("Profit_Per_Call", ascending=False)\<close>. pandas does not fix the order of
  rows with equal keys; the model keeps them in table order. The theorems on the two
  loops below are proved for every order of the rows.
\<close>

definition profitable_rows :: "campaign_row list \<Rightarrow> rat \<Rightarrow> campaign_row list" where
  "profitable_rows campaign_stats min_roas = filter (\<lambda>r. min_roas \<le> ROAS r) campaign_stats"

definition sort_values_desc :: "campaign_row list \<Rightarrow> campaign_row list" where
  "sort_values_desc rows = sort_key (\<lambda>r. - Profit_Per_Call r) rows"

subsection \<open>Double precision\<close>

text \<open>
  The value numpy stores for a float64 result whose exact value is \<open>x\<close>: the nearest
  number with a 53-bit significand, a tie going to the even significand (IEEE 754
  round-to-nearest-even, the only rounding mode numpy uses). \<open>binade x\<close> is the exponent
  of the leading bit of \<open>x\<close>; below \<open>2 ^ -1022\<close> the spacing stays that of the subnormal
  numbers.
\<close>

definition pow2 :: "int \<Rightarrow> rat" where
  "pow2 k = (if 0 \<le> k then 2 ^ nat k else 1 / 2 ^ nat (- k))"

definition round_half_even :: "rat \<Rightarrow> int" where
  "round_half_even q =
     (let f = \<lfloor>q\<rfloor>; d = q - of_int f
      in if d < 1 / 2 then f
         else if 1 / 2 < d then f + 1
         else if even f then f else f + 1)"

definition binade :: "rat \<Rightarrow> int" where
  "binade x =
     (case quotient_of \<bar>x\<bar> of
        (p, q) \<Rightarrow> let e = bitlen p - bitlen q in if pow2 e \<le> \<bar>x\<bar> then e else e - 1)"

definition float64 :: "rat \<Rightarrow> rat" where
  "float64 x =
     (if x = 0 then 0
      else let ulp = pow2 (max (binade x) (- 1022) - 52)
           in of_int (round_half_even (x / ulp)) * ulp)"

subsection \<open>Seeding loop\<close>

text \<open>
  \<^verbatim>\<open>
  for campaign in profitable.index:
      cost = profitable.loc[campaign, "Cost_Per_Call"]
      if remaining_budget >= cost * min_calls:
          allocation[campaign] = min_calls
          remaining_budget -= cost * min_calls
  \<close>
  The loop state is the pair of the dict and the remaining budget. The index labels of
  \<open>profitable\<close> are distinct where this loop runs (see \<open>optimize_budget\<close>), so
  \<^verbatim>\<open>profitable.loc[campaign, ...]\<close> reads the row the loop is at. The product and the
  difference are float64 results; \<open>rnd\<close> is the rounding they go through, \<open>float64\<close> in
  the source.
\<close>

fun seeding_with ::
  "(rat \<Rightarrow> rat) \<Rightarrow> campaign_row list \<Rightarrow> int \<Rightarrow> allocation \<times> rat \<Rightarrow> allocation \<times> rat" where
  "seeding_with rnd [] min_calls (allocation, remaining_budget) = (allocation, remaining_budget)"
| "seeding_with rnd (r # rs) min_calls (allocation, remaining_budget) =
     (let cost = Cost_Per_Call r;
          floor_cost = rnd (cost * of_int min_calls)
      in if floor_cost \<le> remaining_budget
         then seeding_with rnd rs min_calls
                (AList.update (Campaign_key r) min_calls allocation,
                 rnd (remaining_budget - floor_cost))
         else seeding_with rnd rs min_calls (allocation, remaining_budget))"

abbreviation seeding ::
  "campaign_row list \<Rightarrow> int \<Rightarrow> allocation \<times> rat \<Rightarrow> allocation \<times> rat" where
  "seeding \<equiv> seeding_with float64"

subsection \<open>Incremental loop\<close>

text \<open>
  The inner \<^verbatim>\<open>for\<close> stops at the first row, in ranking order, whose allocation is below
  \<open>max_calls\<close> and whose one-call cost fits the remaining budget.
\<close>

definition eligible :: "allocation \<Rightarrow> rat \<Rightarrow> campaign_row \<Rightarrow> bool" where
  "eligible allocation remaining_budget r \<longleftrightarrow>
     np_less (get allocation (Campaign_key r) 0) (max_calls r) \<and>
     Cost_Per_Call r \<le> remaining_budget"

text \<open>
  \<^verbatim>\<open>
  while remaining_budget > 0:
      allocated = False
      for campaign in profitable.index:
          ...
          if allocation.get(campaign, 0) < max_calls:
              if remaining_budget >= cost:
                  allocation[campaign] = allocation.get(campaign, 0) + 1
                  remaining_budget -= cost
                  allocated = True
                  break
      if not allocated:
          break
  \<close>
  The loop need not end (a free call under an infinite ceiling is allocated forever), so
  the model is a partial function: \<^term>\<open>None\<close> stands for a loop that never exits. The
  difference is a float64 result and goes through the rounding \<open>rnd\<close>.
\<close>

partial_function (option) incremental_with ::
  "(rat \<Rightarrow> rat) \<Rightarrow> campaign_row list \<Rightarrow> allocation \<Rightarrow> rat \<Rightarrow> (allocation \<times> rat) option" where
  [code]: "incremental_with rnd profitable allocation remaining_budget =
     (if 0 < remaining_budget
      then (case find (eligible allocation remaining_budget) profitable of
              None \<Rightarrow> Some (allocation, remaining_budget)
            | Some r \<Rightarrow>
                incremental_with rnd profitable
                  (AList.update (Campaign_key r)
                     (get allocation (Campaign_key r) 0 + 1) allocation)
                  (rnd (remaining_budget - Cost_Per_Call r)))
      else Some (allocation, remaining_budget))"

abbreviation incremental ::
  "campaign_row list \<Rightarrow> allocation \<Rightarrow> rat \<Rightarrow> (allocation \<times> rat) option" where
  "incremental \<equiv> incremental_with float64"

subsection \<open>The optimizer\<close>

text \<open>
  Where two rows of \<open>profitable\<close> carry the same index label,
  \<^verbatim>\<open>profitable.loc[campaign, "Cost_Per_Call"]\<close> is a Series of several values and the
  condition of the first \<^verbatim>\<open>if\<close> of the seeding loop raises \<^verbatim>\<open>ValueError\<close>; the seeding
  loop visits every label, so this happens exactly when the labels are not distinct.
\<close>

definition optimize_budget_with ::
  "(rat \<Rightarrow> rat) \<Rightarrow> campaign_row list \<Rightarrow> rat \<Rightarrow> int \<Rightarrow> rat \<Rightarrow> outcome option" where
  "optimize_budget_with rnd campaign_stats daily_budget min_calls min_roas =
     (let profitable = profitable_rows campaign_stats min_roas
      in if profitable = [] then Some (Returns None daily_budget)
         else
           let profitable = sort_values_desc profitable
           in if \<not> distinct (map Campaign_key profitable) then Some (Raises ValueError)
              else
                case seeding_with rnd profitable min_calls ([], daily_budget) of
                  (allocation, remaining_budget) \<Rightarrow>
                    (case incremental_with rnd profitable allocation remaining_budget of
                       None \<Rightarrow> None
                     | Some (allocation, remaining_budget) \<Rightarrow>
                         Some (Returns (Some allocation) remaining_budget)))"

text \<open>The optimizer of the source: every float64 result is rounded to double precision.\<close>

abbreviation optimize_budget ::
  "campaign_row list \<Rightarrow> rat \<Rightarrow> int \<Rightarrow> rat \<Rightarrow> outcome option" where
  "optimize_budget \<equiv> optimize_budget_with float64"


section \<open>Scenario data\<close>

text \<open>
  The two campaigns of the allocation scenario: A with cost 10 and revenue 15 per call,
  100 calls over 10 days; B with cost 5 and revenue 6 per call, 50 calls over 10 days.
  The columns the scenario leaves open are filled consistently with these.
\<close>

definition scenario_A :: campaign_row where
  "scenario_A = \<lparr> Campaign_key = ''A'', Total_Revenue = 1500, Avg_Daily_Revenue = 150,
     Total_Cost = 1000, Avg_Daily_Cost = 100, Total_Calls = 100, Total_Paid_Calls = 100,
     Total_Sales = 20, Days_Active = 10, ROAS = 3 / 2, Cost_Per_Call = 10,
     Revenue_Per_Call = 15, Conversion_Rate = 20, Profit_Per_Call = 5 \<rparr>"

definition scenario_B :: campaign_row where
  "scenario_B = \<lparr> Campaign_key = ''B'', Total_Revenue = 300, Avg_Daily_Revenue = 30,
     Total_Cost = 250, Avg_Daily_Cost = 25, Total_Calls = 50, Total_Paid_Calls = 50,
     Total_Sales = 5, Days_Active = 10, ROAS = 6 / 5, Cost_Per_Call = 5,
     Revenue_Per_Call = 6, Conversion_Rate = 10, Profit_Per_Call = 1 \<rparr>"


text \<open>A day of a campaign that earned revenue with no cost and no calls recorded.\<close>

definition zero_volume_day :: daily_record where
  "zero_volume_day = \<lparr> Date = Some 1, Agency = ''X'', Campaign = ''A'', Revenue = 100,
     Lead_Cost = 0, Total_Calls_daily = 0, Paid_Calls = 0, Unique_Sales = 2 \<rparr>"

section \<open>Quantities the properties are stated with\<close>

text \<open>
  The ceiling the properties of the allocation are stated with:
  \<open>ceil(avg_daily_calls * 1.5)\<close> with \<open>avg_daily_calls = Total_Calls / Days_Active\<close>, for
  rows whose \<open>Days_Active\<close> is not zero.
\<close>

definition ceiling_cap :: "campaign_row \<Rightarrow> int" where
  "ceiling_cap r = \<lceil>Total_Calls r / of_int (Days_Active r) * (3 / 2)\<rceil>"




text \<open>The qualifying rows in ranking order, as both loops of the optimizer see them.\<close>

definition ranked_rows :: "campaign_row list \<Rightarrow> rat \<Rightarrow> campaign_row list" where
  "ranked_rows campaign_stats min_roas = sort_values_desc (profitable_rows campaign_stats min_roas)"

text \<open>
  How many calls the incremental loop can still hand out before every ranked campaign is
  at its ceiling; it measures the progress of the loop.
\<close>

definition headroom :: "campaign_row list \<Rightarrow> allocation \<Rightarrow> nat" where
  "headroom profitable allocation =
     (\<Sum>r\<leftarrow>profitable. nat (ceiling_cap r - get allocation (Campaign_key r) 0))"

section \<open>Properties of the rounding\<close>

text \<open>
  \<open>float64\<close> is rounding to nearest in double precision: \<open>binade\<close> is the exponent of the
  leading bit, the result is an integer of at most 53 bits times the spacing of the
  doubles at that exponent, and it is at most half that spacing away from the exact
  value. The examples are the doubles that Python prints for \<open>0.1\<close>, \<open>1/3\<close> and \<open>900/7\<close>,
  two ties above \<open>2 ^ 53\<close>, which go to the even neighbour, and a small integer.
\<close>

lemma pow2_powi: "pow2 k = 2 powi k"
  by (simp add: pow2_def power_int_def inverse_eq_divide power_one_over)

lemma binade_bounds:
  assumes "x \<noteq> 0"
  shows "pow2 (binade x) \<le> \<bar>x\<bar> \<and> \<bar>x\<bar> < pow2 (binade x + 1)"
proof -
  obtain p q where pq: "quotient_of \<bar>x\<bar> = (p, q)" by (cases "quotient_of \<bar>x\<bar>")
  then have q: "0 < q" by (rule quotient_of_denom_pos)
  from pq have x: "\<bar>x\<bar> = of_int p / of_int q" by (rule quotient_of_div)
  from assms have "0 < \<bar>x\<bar>" by simp
  with x q have p: "0 < p" by (simp add: zero_less_divide_iff)
  let ?e = "bitlen p - bitlen q"
  from bitlen_bounds [OF p] have p1: "2 ^ nat (bitlen p - 1) \<le> p" and p2: "p < 2 ^ nat (bitlen p)"
    by simp_all
  from bitlen_bounds [OF q] have q1: "2 ^ nat (bitlen q - 1) \<le> q" and q2: "q < 2 ^ nat (bitlen q)"
    by simp_all
  have bp: "1 \<le> bitlen p" using p by (simp add: bitlen_alt_def)
  have bq: "1 \<le> bitlen q" using q by (simp add: bitlen_alt_def)
  have P1: "(2::rat) powi (bitlen p - 1) \<le> of_int p"
  proof -
    have "(2::rat) ^ nat (bitlen p - 1) \<le> of_int p"
      using p1 by (metis of_int_le_iff of_int_numeral of_int_power)
    then show ?thesis using bp by (simp add: power_int_def)
  qed
  have P2: "of_int p < (2::rat) powi (bitlen p)"
  proof -
    have "of_int p < (2::rat) ^ nat (bitlen p)"
      using p2 by (metis of_int_less_iff of_int_numeral of_int_power)
    then show ?thesis using bp by (simp add: power_int_def)
  qed
  have Q1: "(2::rat) powi (bitlen q - 1) \<le> of_int q"
  proof -
    have "(2::rat) ^ nat (bitlen q - 1) \<le> of_int q"
      using q1 by (metis of_int_le_iff of_int_numeral of_int_power)
    then show ?thesis using bq by (simp add: power_int_def)
  qed
  have Q2: "of_int q < (2::rat) powi (bitlen q)"
  proof -
    have "of_int q < (2::rat) ^ nat (bitlen q)"
      using q2 by (metis of_int_less_iff of_int_numeral of_int_power)
    then show ?thesis using bq by (simp add: power_int_def)
  qed
  have qpos: "(0::rat) < of_int q" using q by simp
  have ppos: "(0::rat) \<le> of_int p" using p by simp
  have upper: "\<bar>x\<bar> < pow2 (?e + 1)"
  proof -
    have "of_int p / of_int q < (2::rat) powi (bitlen p) / 2 powi (bitlen q - 1)"
      using P2 Q1 qpos ppos by (intro frac_less) simp_all
    also have "\<dots> = 2 powi (bitlen p - (bitlen q - 1))"
      by (rule power_int_diff [symmetric]) simp
    also have "bitlen p - (bitlen q - 1) = ?e + 1" by simp
    finally show ?thesis by (simp only: x pow2_powi)
  qed
  have lower: "pow2 (?e - 1) \<le> \<bar>x\<bar>"
  proof -
    have "(2::rat) powi (bitlen p - 1) / 2 powi (bitlen q) \<le> of_int p / of_int q"
      using P1 Q2 qpos ppos by (intro frac_le) simp_all
    moreover have "(2::rat) powi (bitlen p - 1) / 2 powi (bitlen q) = 2 powi (bitlen p - 1 - bitlen q)"
      by (rule power_int_diff [symmetric]) simp
    moreover have "bitlen p - 1 - bitlen q = ?e - 1" by simp
    ultimately show ?thesis by (simp only: x pow2_powi)
  qed
  show ?thesis
  proof (cases "pow2 ?e \<le> \<bar>x\<bar>")
    case True
    with pq have "binade x = ?e" by (simp add: binade_def Let_def)
    with True upper show ?thesis by simp
  next
    case False
    with pq have "binade x = ?e - 1" by (simp add: binade_def Let_def)
    with False lower show ?thesis by simp
  qed
qed

lemma round_half_even_error: "\<bar>of_int (round_half_even q) - q\<bar> \<le> 1 / 2"
proof -
  have "of_int \<lfloor>q\<rfloor> \<le> q" "q < of_int \<lfloor>q\<rfloor> + 1" by linarith+
  then show ?thesis
    by (auto simp: round_half_even_def Let_def)
qed

lemma float64_error:
  "\<bar>float64 x - x\<bar> \<le> pow2 (max (binade x) (- 1022) - 52) / 2"
proof (cases "x = 0")
  case True
  then show ?thesis by (simp add: float64_def pow2_powi)
next
  case False
  let ?u = "pow2 (max (binade x) (- 1022) - 52)"
  have u: "0 < ?u" by (simp add: pow2_powi)
  have "float64 x - x = (of_int (round_half_even (x / ?u)) - x / ?u) * ?u"
    using False u by (simp add: float64_def Let_def algebra_simps)
  then have "\<bar>float64 x - x\<bar> = \<bar>of_int (round_half_even (x / ?u)) - x / ?u\<bar> * ?u"
    using u by (simp add: abs_mult)
  also have "\<dots> \<le> 1 / 2 * ?u"
    using round_half_even_error [of "x / ?u"] u by (intro mult_right_mono) simp_all
  finally show ?thesis by simp
qed

lemma float64_significand:
  "\<bar>round_half_even (x / pow2 (max (binade x) (- 1022) - 52))\<bar> \<le> 2 ^ 53"
proof (cases "x = 0")
  case True
  then show ?thesis by (simp add: round_half_even_def)
next
  case False
  let ?e = "max (binade x) (- 1022)"
  let ?q = "x / pow2 (?e - 52)"
  from binade_bounds [OF False] have "\<bar>x\<bar> < 2 powi (binade x + 1)"
    by (simp add: pow2_powi)
  also have "\<dots> \<le> 2 powi (?e + 1)"
    by (intro power_int_increasing) simp_all
  finally have "\<bar>x\<bar> < 2 powi (?e + 1)" .
  then have "\<bar>x\<bar> / 2 powi (?e - 52) < 2 powi (?e + 1) / 2 powi (?e - 52)"
    by (intro divide_strict_right_mono) simp_all
  also have "2 powi (?e + 1) / 2 powi (?e - 52) = (2::rat) powi (?e + 1 - (?e - 52))"
    by (rule power_int_diff [symmetric]) simp
  also have "?e + 1 - (?e - 52) = 53" by simp
  finally have "\<bar>?q\<bar> < 2 ^ 53"
    by (simp add: pow2_powi)
  with round_half_even_error [of ?q]
  have "\<bar>rat_of_int (round_half_even ?q)\<bar> < 2 ^ 53 + 1"
    by linarith
  then have "rat_of_int \<bar>round_half_even ?q\<bar> < rat_of_int (2 ^ 53 + 1)"
    by simp
  then have "\<bar>round_half_even ?q\<bar> < 2 ^ 53 + 1"
    by (simp only: of_int_less_iff)
  then show ?thesis by simp
qed

lemma float64_examples:
  "float64 (1 / 10) = 3602879701896397 / 36028797018963968"
  "float64 (1 / 3) = 6004799503160661 / 18014398509481984"
  "float64 (900 / 7) = 4523704982849829 / 35184372088832"
  "float64 9007199254740993 = 9007199254740992"
  "float64 9007199254740995 = 9007199254740996"
  "float64 185 = 185"
  by code_simp+

section \<open>Properties of the optimizer\<close>

subsection \<open>An invariant rule for the incremental loop\<close>

text \<open>
  Whatever holds of the loop state at entry and is kept by one allocation step holds of
  the state the loop returns.
\<close>

lemma incremental_invariant:
  assumes res: "incremental_with rnd profitable allocation remaining_budget = Some (allocation', remaining_budget')"
    and init: "I allocation remaining_budget"
    and step: "\<And>al rem r. I al rem \<Longrightarrow> 0 < rem \<Longrightarrow> r \<in> set profitable \<Longrightarrow> eligible al rem r \<Longrightarrow>
        I (AList.update (Campaign_key r) (get al (Campaign_key r) 0 + 1) al) (rnd (rem - Cost_Per_Call r))"
  shows "I allocation' remaining_budget'"
proof -
  have "rnd = rnd \<longrightarrow> profitable = profitable \<longrightarrow> I allocation remaining_budget \<longrightarrow>
        I (fst (allocation', remaining_budget')) (snd (allocation', remaining_budget'))"
  proof (rule incremental_with.raw_induct
      [where P = "\<lambda>rn p al rem y. rn = rnd \<longrightarrow> p = profitable \<longrightarrow> I al rem \<longrightarrow> I (fst y) (snd y)",
       OF _ res])
    fix incr :: "(rat \<Rightarrow> rat) \<Rightarrow> campaign_row list \<Rightarrow> allocation \<Rightarrow> rat \<Rightarrow> (allocation \<times> rat) option"
    fix rn p al rem y
    assume IH: "\<And>rn' p' al' rem' y'. incr rn' p' al' rem' = Some y' \<Longrightarrow>
                  rn' = rnd \<longrightarrow> p' = profitable \<longrightarrow> I al' rem' \<longrightarrow> I (fst y') (snd y')"
    assume eq: "(if 0 < rem
                 then case find (eligible al rem) p of
                        None \<Rightarrow> Some (al, rem)
                      | Some r \<Rightarrow> incr rn p (AList.update (Campaign_key r) (get al (Campaign_key r) 0 + 1) al)
                                    (rn (rem - Cost_Per_Call r))
                 else Some (al, rem)) = Some y"
    show "rn = rnd \<longrightarrow> p = profitable \<longrightarrow> I al rem \<longrightarrow> I (fst y) (snd y)"
    proof (intro impI)
      assume rn: "rn = rnd" and p: "p = profitable" and I: "I al rem"
      show "I (fst y) (snd y)"
      proof (cases "0 < rem")
        case False
        with eq I show ?thesis by auto
      next
        case pos: True
        show ?thesis
        proof (cases "find (eligible al rem) p")
          case None
          with eq pos I show ?thesis by auto
        next
          case (Some r)
          then have r: "r \<in> set profitable" "eligible al rem r"
            using p by (auto simp: find_Some_iff)
          from Some eq pos
          have rec: "incr rn p (AList.update (Campaign_key r) (get al (Campaign_key r) 0 + 1) al)
                       (rn (rem - Cost_Per_Call r)) = Some y"
            by simp
          from step [OF I pos r]
          have "I (AList.update (Campaign_key r) (get al (Campaign_key r) 0 + 1) al)
                  (rn (rem - Cost_Per_Call r))"
            by (simp add: rn)
          with IH [OF rec] rn p show ?thesis by blast
        qed
      qed
    qed
  qed
  with init show ?thesis by simp
qed

subsection \<open>No qualifying campaign\<close>

lemma profitable_rows_empty:
  "(\<forall>r\<in>set campaign_stats. \<not> min_roas \<le> ROAS r) \<Longrightarrow> profitable_rows campaign_stats min_roas = []"
  by (simp add: profitable_rows_def filter_empty_conv)

text \<open>
  C3. If no campaign of the table has \<open>ROAS \<ge> min_roas\<close>, \<open>optimize_budget\<close> returns the
  null allocation and the full daily budget as leftover; in particular with
  \<open>min_roas = 2\<close> when no ROAS in the table exceeds 1.5.
\<close>

theorem optimize_budget_no_qualifying:
  "((\<forall>r\<in>set campaign_stats. ROAS r < min_roas) \<longrightarrow>
      optimize_budget campaign_stats daily_budget min_calls min_roas = Some (Returns None daily_budget)) \<and>
   ((\<forall>r\<in>set campaign_stats. ROAS r \<le> 3 / 2) \<longrightarrow>
      optimize_budget campaign_stats daily_budget min_calls 2 = Some (Returns None daily_budget))"
proof (intro conjI impI)
  assume "\<forall>r\<in>set campaign_stats. ROAS r < min_roas"
  then have "profitable_rows campaign_stats min_roas = []"
    by (intro profitable_rows_empty) (auto simp: not_le)
  then show "optimize_budget campaign_stats daily_budget min_calls min_roas = Some (Returns None daily_budget)"
    by (simp add: optimize_budget_with_def)
next
  assume "\<forall>r\<in>set campaign_stats. ROAS r \<le> 3 / 2"
  then have "profitable_rows campaign_stats 2 = []"
    by (intro profitable_rows_empty) (auto simp: not_le intro: le_less_trans)
  then show "optimize_budget campaign_stats daily_budget min_calls 2 = Some (Returns None daily_budget)"
    by (simp add: optimize_budget_with_def)
qed

theorem optimize_budget_no_qualifying_witness:
  "ROAS scenario_A < 2 \<and> ROAS scenario_B < 2 \<and>
   ROAS scenario_A \<le> 3 / 2 \<and> ROAS scenario_B \<le> 3 / 2 \<and>
   optimize_budget [scenario_A, scenario_B] 200 1 2 = Some (Returns None 200)"
proof -
  have a: "ROAS scenario_A < 2" "ROAS scenario_A \<le> 3 / 2" by (simp_all add: scenario_A_def)
  have b: "ROAS scenario_B < 2" "ROAS scenario_B \<le> 3 / 2" by (simp_all add: scenario_B_def)
  from a b have "\<forall>r\<in>set [scenario_A, scenario_B]. ROAS r < 2" by simp
  with optimize_budget_no_qualifying [of "[scenario_A, scenario_B]" 2 200 1]
  have "optimize_budget [scenario_A, scenario_B] 200 1 2 = Some (Returns None 200)" by blast
  with a b show ?thesis by blast
qed

subsection \<open>The two-campaign scenario\<close>

text \<open>
  C5 (as the code behaves). On campaigns A and B with budget 200, \<open>min_roas = 1\<close> and
  \<open>min_calls = 1\<close>, A is ranked first by its higher profit per call, in whichever order
  the table lists the two rows, and is seeded first; both campaigns are seeded with one
  call, and the incremental loop fills A up to 15 calls and then B up to 8 calls, the
  first integer not below its ceiling 7.5; 10 is left over.
\<close>

theorem scenario_allocation:
  "sort_values_desc (profitable_rows [scenario_A, scenario_B] 1) = [scenario_A, scenario_B] \<and>
   sort_values_desc (profitable_rows [scenario_B, scenario_A] 1) = [scenario_A, scenario_B] \<and>
   seeding [scenario_A, scenario_B] 1 ([], 200) = ([(''A'', 1), (''B'', 1)], 185) \<and>
   max_calls scenario_A = Finite 15 \<and> max_calls scenario_B = Finite (15 / 2) \<and>
   optimize_budget [scenario_A, scenario_B] 200 1 1 =
     Some (Returns (Some [(''A'', 15), (''B'', 8)]) 10) \<and>
   optimize_budget [scenario_B, scenario_A] 200 1 1 =
     Some (Returns (Some [(''A'', 15), (''B'', 8)]) 10)"
  by code_simp

text \<open>
  C5 (as stated) fails: the loop compares the integer allocation with the fractional
  ceiling 7.5, so B receives an eighth call and is not capped at 7.
\<close>

theorem scenario_B_not_capped_at_7:
  "optimize_budget [scenario_A, scenario_B] 200 1 1 =
     Some (Returns (Some [(''A'', 15), (''B'', 8)]) 10) \<and>
   \<not> get [(''A'', 15), (''B'', 8)] ''B'' 0 \<le> 7"
  by code_simp

subsection \<open>Concrete runs against the ceiling and the floor\<close>

text \<open>
  C2 (as stated) fails: with \<open>min_calls = 5\<close> a campaign averaging one call a day is
  seeded with 5 calls although its ceiling is 2.
\<close>

theorem seeding_ignores_ceiling:
  "optimize_budget [scenario_A\<lparr>Total_Calls := 10\<rparr>] 200 5 1 = Some (Returns (Some [(''A'', 5)]) 150) \<and>
   ceiling_cap (scenario_A\<lparr>Total_Calls := 10\<rparr>) = 2 \<and>
   \<not> get [(''A'', 5)] ''A'' 0 \<le> ceiling_cap (scenario_A\<lparr>Total_Calls := 10\<rparr>)"
  by code_simp

text \<open>
  C6 (as stated) fails: with budget 15 and \<open>min_calls = 2\<close> campaign A (cost 10) cannot
  be seeded, yet the incremental loop gives it one call.
\<close>

theorem unseeded_below_min_calls:
  "optimize_budget [scenario_A] 15 2 1 = Some (Returns (Some [(''A'', 1)]) 5) \<and>
   \<not> 2 \<le> get [(''A'', 1)] ''A'' 0"
  by code_simp

subsection \<open>Lemmas on the allocation dict\<close>

lemma get_update: "get (AList.update k v al) c d = (if c = k then v else get al c d)"
  by (simp add: get_def update_conv')

lemma set_update_subset: "set (AList.update k v al) \<subseteq> insert (k, v) (set al)"
  by (induction al) auto

lemma map_of_distinct_entry: "distinct (map fst al) \<Longrightarrow> (c, n) \<in> set al \<Longrightarrow> get al c d = n"
  by (simp add: get_def)



subsection \<open>The ranked table\<close>



lemma set_ranked_rows: "set (ranked_rows cs mr) = {r \<in> set cs. mr \<le> ROAS r}"
  by (auto simp: ranked_rows_def sort_values_desc_def profitable_rows_def)

lemma distinct_ranked_rows:
  "distinct (map Campaign_key cs) \<Longrightarrow> distinct (map Campaign_key (ranked_rows cs mr))"
  by (simp add: ranked_rows_def sort_values_desc_def profitable_rows_def distinct_map
      inj_on_def)

lemma same_key_same_row:
  "distinct (map Campaign_key cs) \<Longrightarrow> r \<in> set cs \<Longrightarrow> r' \<in> set cs \<Longrightarrow>
   Campaign_key r = Campaign_key r' \<Longrightarrow> r = r'"
  by (auto simp: distinct_map inj_on_def)

lemma optimize_budget_returns:
  assumes "optimize_budget_with rnd cs b mc mr = Some (Returns (Some al) l)"
  shows "distinct (map Campaign_key (ranked_rows cs mr)) \<and>
         incremental_with rnd (ranked_rows cs mr)
           (fst (seeding_with rnd (ranked_rows cs mr) mc ([], b)))
           (snd (seeding_with rnd (ranked_rows cs mr) mc ([], b))) = Some (al, l)"
  using assms
  by (auto simp: optimize_budget_with_def ranked_rows_def Let_def
      split: if_splits prod.splits option.splits)

subsection \<open>Budget accounting of the two loops\<close>


lemma seeding_entries:
  "seeding_with rnd rs mc (al, rem) = (al', rem') \<Longrightarrow>
   set al' \<subseteq> set al \<union> {(Campaign_key r, mc) |r. r \<in> set rs}"
proof (induction rs arbitrary: al rem)
  case Nil
  then show ?case by simp
next
  case (Cons r rs)
  show ?case
  proof (cases "rnd (Cost_Per_Call r * of_int mc) \<le> rem")
    case False
    with Cons.prems have "seeding_with rnd rs mc (al, rem) = (al', rem')" by simp
    from Cons.IH [OF this] show ?thesis by auto
  next
    case True
    with Cons.prems
    have "seeding_with rnd rs mc (AList.update (Campaign_key r) mc al,
            rnd (rem - rnd (Cost_Per_Call r * of_int mc))) = (al', rem')"
      by simp
    from Cons.IH [OF this] set_update_subset [of "Campaign_key r" mc al]
    show ?thesis by auto
  qed
qed


lemma seeding_keys:
  "seeding_with rnd rs mc (al, rem) = (al', rem') \<Longrightarrow> fst ` set al' \<subseteq> fst ` set al \<union> Campaign_key ` set rs"
  using seeding_entries [of rnd rs mc al rem al' rem'] by (auto simp: image_iff) force+

lemma incremental_keys:
  assumes res: "incremental_with rnd rs al rem = Some (al', rem')"
  shows "fst ` set al' \<subseteq> fst ` set al \<union> Campaign_key ` set rs"
proof (rule incremental_invariant [where I = "\<lambda>a m. fst ` set a \<subseteq> fst ` set al \<union> Campaign_key ` set rs", OF res])
  show "fst ` set al \<subseteq> fst ` set al \<union> Campaign_key ` set rs" by simp
next
  fix a :: allocation and m :: rat and r
  assume "fst ` set a \<subseteq> fst ` set al \<union> Campaign_key ` set rs" "r \<in> set rs"
  then show "fst ` set (AList.update (Campaign_key r) (get a (Campaign_key r) 0 + 1) a)
               \<subseteq> fst ` set al \<union> Campaign_key ` set rs"
    by (auto simp: dom_update)
qed

lemma optimize_budget_keys:
  assumes "optimize_budget_with rnd cs b mc mr = Some (Returns (Some al) l)"
  shows "fst ` set al \<subseteq> Campaign_key ` set (ranked_rows cs mr)"
proof -
  obtain al0 rem0 where s: "seeding_with rnd (ranked_rows cs mr) mc ([], b) = (al0, rem0)"
    by (cases "seeding_with rnd (ranked_rows cs mr) mc ([], b)")
  from optimize_budget_returns [OF assms] s
  have "incremental_with rnd (ranked_rows cs mr) al0 rem0 = Some (al, l)" by simp
  from incremental_keys [OF this] seeding_keys [OF s] show ?thesis by auto
qed


subsection \<open>The remaining budget under rounding\<close>












subsection \<open>Keys of the allocation\<close>

text \<open>
  C4. A campaign whose ROAS is strictly below \<open>min_roas\<close> is never a key of the returned
  allocation.
\<close>

theorem unprofitable_never_allocated:
  assumes unique: "distinct (map Campaign_key campaign_stats)"
    and result: "optimize_budget campaign_stats daily_budget min_calls min_roas = Some (Returns (Some allocation) leftover)"
    and row: "r \<in> set campaign_stats" "ROAS r < min_roas"
  shows "Campaign_key r \<notin> fst ` set allocation"
proof
  assume "Campaign_key r \<in> fst ` set allocation"
  with optimize_budget_keys [OF result]
  obtain r' where r': "r' \<in> set (ranked_rows campaign_stats min_roas)" "Campaign_key r' = Campaign_key r"
    by auto
  then have "r' \<in> set campaign_stats" "min_roas \<le> ROAS r'" by (auto simp: set_ranked_rows)
  with same_key_same_row [OF unique row(1) this(1)] r'(2) row(2) show False by auto
qed

theorem unprofitable_never_allocated_witness:
  "distinct (map Campaign_key [scenario_A, scenario_B]) \<and>
   optimize_budget [scenario_A, scenario_B] 200 1 (13 / 10) = Some (Returns (Some [(''A'', 15)]) 50) \<and>
   scenario_B \<in> set [scenario_A, scenario_B] \<and> ROAS scenario_B < 13 / 10 \<and>
   Campaign_key scenario_B \<notin> fst ` set [(''A'', 15 :: int)]"
proof -
  have u: "distinct (map Campaign_key [scenario_A, scenario_B])" by code_simp
  have r: "optimize_budget [scenario_A, scenario_B] 200 1 (13 / 10) = Some (Returns (Some [(''A'', 15)]) 50)"
    by code_simp
  have m: "scenario_B \<in> set [scenario_A, scenario_B]" by simp
  have l: "ROAS scenario_B < 13 / 10" by code_simp
  from unprofitable_never_allocated [OF u r m l] u r m l show ?thesis by simp
qed

subsection \<open>Ceiling and floor of the allocation\<close>

lemma np_less_max_calls:
  "Days_Active r \<noteq> 0 \<Longrightarrow> np_less n (max_calls r) \<longleftrightarrow> n < ceiling_cap r"
  by (simp add: max_calls_def true_divide_def ceiling_cap_def less_ceiling_iff)

lemma seeding_distinct:
  "distinct (map fst al) \<Longrightarrow> seeding_with rnd rs mc (al, rem) = (al', rem') \<Longrightarrow> distinct (map fst al')"
proof (induction rs arbitrary: al rem)
  case Nil
  then show ?case by simp
next
  case (Cons r rs)
  show ?case
  proof (cases "rnd (Cost_Per_Call r * of_int mc) \<le> rem")
    case True
    with Cons.prems(2)
    have "seeding_with rnd rs mc (AList.update (Campaign_key r) mc al,
            rnd (rem - rnd (Cost_Per_Call r * of_int mc))) = (al', rem')"
      by simp
    from Cons.IH [OF distinct_update [OF Cons.prems(1)] this] show ?thesis .
  next
    case False
    with Cons.prems(2) have "seeding_with rnd rs mc (al, rem) = (al', rem')" by simp
    from Cons.IH [OF Cons.prems(1) this] show ?thesis .
  qed
qed

lemma incremental_distinct:
  assumes res: "incremental_with rnd rs al rem = Some (al', rem')" and d: "distinct (map fst al)"
  shows "distinct (map fst al')"
  by (rule incremental_invariant [where I = "\<lambda>a m. distinct (map fst a)", OF res d])
     (rule distinct_update)

lemma incremental_ceiling:
  assumes res: "incremental_with rnd rs al rem = Some (al', rem')"
    and d: "distinct (map Campaign_key rs)"
    and init: "\<forall>(c, n)\<in>set al. \<forall>r\<in>set rs. Campaign_key r = c \<and> Days_Active r \<noteq> 0 \<longrightarrow> n \<le> max mc (ceiling_cap r)"
  shows "\<forall>(c, n)\<in>set al'. \<forall>r\<in>set rs. Campaign_key r = c \<and> Days_Active r \<noteq> 0 \<longrightarrow> n \<le> max mc (ceiling_cap r)"
proof -
  let ?I = "\<lambda>(a::allocation) (m::rat).
      \<forall>(c, n)\<in>set a. \<forall>r\<in>set rs. Campaign_key r = c \<and> Days_Active r \<noteq> 0 \<longrightarrow> n \<le> max mc (ceiling_cap r)"
  show ?thesis
  proof (rule incremental_invariant [where I = ?I, OF res init])
    fix a :: allocation and m :: rat and r
    assume I: "?I a m" and r: "r \<in> set rs" and e: "eligible a m r"
    let ?k = "Campaign_key r" and ?v = "get a (Campaign_key r) 0 + 1"
    have key: "n \<le> max mc (ceiling_cap r')"
      if cn: "(c, n) \<in> set (AList.update ?k ?v a)"
        and r': "r' \<in> set rs" "Campaign_key r' = c" "Days_Active r' \<noteq> 0"
      for c n r'
    proof -
      from cn set_update_subset [of ?k ?v a]
      consider "(c, n) \<in> set a" | "c = ?k" "n = ?v" by auto
      then show ?thesis
      proof cases
        case 1
        with I r' show ?thesis by auto
      next
        case 2
        from 2(1) r'(2) have "Campaign_key r = Campaign_key r'" by metis
        then have same: "r = r'" by (rule same_key_same_row [OF d r r'(1)])
        from e have "np_less (get a ?k 0) (max_calls r)" by (simp add: eligible_def)
        with same r'(3) have "get a ?k 0 < ceiling_cap r'"
          by (simp add: np_less_max_calls)
        then have "?v \<le> max mc (ceiling_cap r')" by linarith
        with 2(2) show ?thesis by simp
      qed
    qed
    then show "?I (AList.update ?k ?v a) (rnd (m - Cost_Per_Call r))" by blast
  qed
qed

text \<open>
  C2 (as the code behaves). Every allocated campaign with a nonzero \<open>Days_Active\<close> has at
  most \<open>max(min_calls, ceil(avg_daily_calls * 1.5))\<close> calls: the seeding loop gives
  \<open>min_calls\<close> without looking at the ceiling, and the incremental loop only adds a call
  below the ceiling.
\<close>

theorem allocation_floor_or_ceiling:
  assumes unique: "distinct (map Campaign_key campaign_stats)"
    and result: "optimize_budget campaign_stats daily_budget min_calls min_roas = Some (Returns (Some allocation) leftover)"
    and entry: "(c, n) \<in> set allocation"
    and row: "r \<in> set campaign_stats" "Campaign_key r = c" "Days_Active r \<noteq> 0"
  shows "n \<le> max min_calls (ceiling_cap r)"
proof -
  let ?rs = "ranked_rows campaign_stats min_roas"
  obtain al0 rem0 where s: "seeding ?rs min_calls ([], daily_budget) = (al0, rem0)"
    by (cases "seeding ?rs min_calls ([], daily_budget)")
  from optimize_budget_returns [OF result] s
  have d: "distinct (map Campaign_key ?rs)" and inc: "incremental ?rs al0 rem0 = Some (allocation, leftover)"
    by simp_all
  from seeding_entries [OF s]
  have init: "\<forall>(c, n)\<in>set al0. \<forall>r\<in>set ?rs. Campaign_key r = c \<and> Days_Active r \<noteq> 0 \<longrightarrow> n \<le> max min_calls (ceiling_cap r)"
    by auto
  note bound = incremental_ceiling [OF inc d init]
  from entry optimize_budget_keys [OF result]
  obtain r' where r': "r' \<in> set ?rs" "Campaign_key r' = c" by force
  then have "r' \<in> set campaign_stats" by (simp add: set_ranked_rows)
  from same_key_same_row [OF unique row(1) this] r'(2) row(2) have "r' = r" by simp
  with r'(1) have "r \<in> set ?rs" by simp
  with bound entry row(2,3) show ?thesis by auto
qed

theorem allocation_floor_or_ceiling_witness:
  "distinct (map Campaign_key [scenario_A\<lparr>Total_Calls := 10\<rparr>]) \<and>
   optimize_budget [scenario_A\<lparr>Total_Calls := 10\<rparr>] 200 5 1 = Some (Returns (Some [(''A'', 5)]) 150) \<and>
   Days_Active (scenario_A\<lparr>Total_Calls := 10\<rparr>) \<noteq> 0 \<and>
   ceiling_cap (scenario_A\<lparr>Total_Calls := 10\<rparr>) = 2 \<and>
   (5::int) \<le> max 5 (ceiling_cap (scenario_A\<lparr>Total_Calls := 10\<rparr>))"
proof -
  let ?r = "scenario_A\<lparr>Total_Calls := 10\<rparr>"
  have u: "distinct (map Campaign_key [?r])" by simp
  have r: "optimize_budget [?r] 200 5 1 = Some (Returns (Some [(''A'', 5)]) 150)" by code_simp
  have e: "(''A'', 5) \<in> set [(''A'', 5::int)]" by simp
  have m: "?r \<in> set [?r]" by simp
  have k: "Campaign_key ?r = ''A''" by code_simp
  have d: "Days_Active ?r \<noteq> 0" by code_simp
  have c: "ceiling_cap ?r = 2" by code_simp
  from allocation_floor_or_ceiling [OF u r e m k d] u r d c show ?thesis by simp
qed

lemma get_nonneg:
  assumes "\<forall>(c, n)\<in>set a. (1::int) \<le> n"
  shows "0 \<le> get a k 0"
proof (cases "map_of a k")
  case None
  then show ?thesis by (simp add: get_def)
next
  case (Some v)
  then have "(k, v) \<in> set a" by (rule map_of_SomeD)
  with assms have "1 \<le> v" by auto
  with Some show ?thesis by (simp add: get_def)
qed

lemma incremental_floor:
  assumes res: "incremental_with rnd rs al rem = Some (al', rem')"
    and one: "\<forall>(c, n)\<in>set al. 1 \<le> n"
    and seeded: "\<forall>c\<in>S. mc \<le> get al c 0"
  shows "(\<forall>(c, n)\<in>set al'. 1 \<le> n) \<and> (\<forall>c\<in>S. mc \<le> get al' c 0)"
proof -
  let ?I = "\<lambda>(a::allocation) (m::rat). (\<forall>(c, n)\<in>set a. 1 \<le> n) \<and> (\<forall>c\<in>S. mc \<le> get a c 0)"
  show ?thesis
  proof (rule incremental_invariant [where I = ?I, OF res])
    show "?I al rem" using one seeded by simp
  next
    fix a :: allocation and m :: rat and r :: campaign_row
    assume I: "?I a m"
    let ?k = "Campaign_key r" and ?v = "get a (Campaign_key r) 0 + 1"
    from I have nn: "0 \<le> get a ?k 0" by (intro get_nonneg) simp
    have "\<forall>(c, n)\<in>set (AList.update ?k ?v a). 1 \<le> n"
      using set_update_subset [of ?k ?v a] I nn by auto
    moreover have "\<forall>c\<in>S. mc \<le> get (AList.update ?k ?v a) c 0"
      using I by (auto simp: get_update)
    ultimately show "?I (AList.update ?k ?v a) (rnd (m - Cost_Per_Call r))" by simp
  qed
qed

text \<open>
  C6 (as the code behaves). For \<open>min_calls \<ge> 1\<close> every allocated campaign has at least
  one call, and every campaign that the seeding loop allocated has at least \<open>min_calls\<close>.
\<close>

theorem allocation_at_least_one_and_seeded_floor:
  assumes floor: "1 \<le> min_calls"
    and result: "optimize_budget campaign_stats daily_budget min_calls min_roas = Some (Returns (Some allocation) leftover)"
    and entry: "(c, n) \<in> set allocation"
  shows "1 \<le> n \<and>
         (c \<in> fst ` set (fst (seeding (ranked_rows campaign_stats min_roas) min_calls ([], daily_budget)))
            \<longrightarrow> min_calls \<le> n)"
proof -
  let ?rs = "ranked_rows campaign_stats min_roas"
  obtain al0 rem0 where s: "seeding ?rs min_calls ([], daily_budget) = (al0, rem0)"
    by (cases "seeding ?rs min_calls ([], daily_budget)")
  from optimize_budget_returns [OF result] s
  have inc: "incremental ?rs al0 rem0 = Some (allocation, leftover)" by simp
  have d0: "distinct (map fst al0)" by (rule seeding_distinct [OF _ s]) simp
  from seeding_entries [OF s] have vals: "\<forall>(c, n)\<in>set al0. n = min_calls" by auto
  with floor have one: "\<forall>(c, n)\<in>set al0. 1 \<le> n" by auto
  have seeded: "\<forall>c\<in>fst ` set al0. min_calls \<le> get al0 c 0"
  proof
    fix c assume "c \<in> fst ` set al0"
    then obtain n where cn: "(c, n) \<in> set al0" by auto
    with vals have "n = min_calls" by auto
    with map_of_distinct_entry [OF d0 cn, of 0] show "min_calls \<le> get al0 c 0" by simp
  qed
  from incremental_floor [OF inc one seeded]
  have fin: "(\<forall>(c, n)\<in>set allocation. 1 \<le> n) \<and> (\<forall>c\<in>fst ` set al0. min_calls \<le> get allocation c 0)" .
  have "get allocation c 0 = n"
    using incremental_distinct [OF inc d0] entry by (rule map_of_distinct_entry)
  with fin entry s show ?thesis by auto
qed

theorem allocation_at_least_one_and_seeded_floor_witness:
  "optimize_budget [scenario_A, scenario_B] 200 2 1 =
     Some (Returns (Some [(''A'', 15), (''B'', 8)]) 10) \<and>
   seeding (ranked_rows [scenario_A, scenario_B] 1) 2 ([], 200) = ([(''A'', 2), (''B'', 2)], 170) \<and>
   (1::int) \<le> 8 \<and> (2::int) \<le> 8"
proof -
  have f: "(1::int) \<le> 2" by simp
  have r: "optimize_budget [scenario_A, scenario_B] 200 2 1 =
     Some (Returns (Some [(''A'', 15), (''B'', 8)]) 10)" by code_simp
  have e: "(''B'', 8) \<in> set [(''A'', 15), (''B'', 8::int)]" by simp
  have s: "seeding (ranked_rows [scenario_A, scenario_B] 1) 2 ([], 200) = ([(''A'', 2), (''B'', 2)], 170)"
    by code_simp
  from allocation_at_least_one_and_seeded_floor [OF f r e] s r show ?thesis by simp
qed

subsection \<open>Termination\<close>

text \<open>
  The loop returns only with the budget used up or after a scan that found no eligible
  campaign.
\<close>

lemma incremental_exit:
  assumes res: "incremental_with rnd profitable allocation remaining_budget = Some (allocation', remaining_budget')"
  shows "\<not> 0 < remaining_budget' \<or> find (eligible allocation' remaining_budget') profitable = None"
proof -
  let ?P = "\<lambda>(rn::rat \<Rightarrow> rat) p (al::allocation) (rem::rat) y.
              \<not> 0 < snd y \<or> find (eligible (fst y) (snd y)) p = None"
  have "?P rnd profitable allocation remaining_budget (allocation', remaining_budget')"
  proof (rule incremental_with.raw_induct [where P = ?P, OF _ res])
    fix incr :: "(rat \<Rightarrow> rat) \<Rightarrow> campaign_row list \<Rightarrow> allocation \<Rightarrow> rat \<Rightarrow> (allocation \<times> rat) option"
    fix rn p al rem y
    assume IH: "\<And>rn' p' al' rem' y'. incr rn' p' al' rem' = Some y' \<Longrightarrow> ?P rn' p' al' rem' y'"
    assume eq: "(if 0 < rem
                 then case find (eligible al rem) p of
                        None \<Rightarrow> Some (al, rem)
                      | Some r \<Rightarrow> incr rn p (AList.update (Campaign_key r) (get al (Campaign_key r) 0 + 1) al)
                                    (rn (rem - Cost_Per_Call r))
                 else Some (al, rem)) = Some y"
    show "?P rn p al rem y"
    proof (cases "0 < rem")
      case False
      with eq show ?thesis by auto
    next
      case pos: True
      show ?thesis
      proof (cases "find (eligible al rem) p")
        case None
        with eq pos show ?thesis by auto
      next
        case (Some r)
        with eq pos
        have "incr rn p (AList.update (Campaign_key r) (get al (Campaign_key r) 0 + 1) al)
                (rn (rem - Cost_Per_Call r)) = Some y"
          by simp
        from IH [OF this] show ?thesis .
      qed
    qed
  qed
  then show ?thesis by simp
qed

text \<open>
  Without a bound on the ceiling the loop need not return: a campaign with
  \<open>Days_Active = 0\<close> and calls on record has an infinite ceiling, and when its calls cost
  nothing a budget that is a double (one that rounding leaves as it is) never shrinks.
\<close>

lemma free_calls_never_end:
  assumes days: "Days_Active r = 0" and calls: "0 < Total_Calls r"
    and free: "Cost_Per_Call r = 0" and budget: "0 < remaining_budget"
    and double: "rnd remaining_budget = remaining_budget"
  shows "incremental_with rnd [r] allocation remaining_budget = None"
proof (rule ccontr)
  assume "incremental_with rnd [r] allocation remaining_budget \<noteq> None"
  then obtain al' rem' where res: "incremental_with rnd [r] allocation remaining_budget = Some (al', rem')"
    by auto
  have same: "rem' = remaining_budget"
  proof (rule incremental_invariant [where I = "\<lambda>a m. m = remaining_budget", OF res])
    show "remaining_budget = remaining_budget" ..
  next
    fix m :: rat and r' assume "m = remaining_budget" "r' \<in> set [r]"
    with free double show "rnd (m - Cost_Per_Call r') = remaining_budget" by simp
  qed
  from days calls have "max_calls r = PosInf"
    by (simp add: max_calls_def true_divide_def)
  with same budget free have "eligible al' rem' r" by (simp add: eligible_def)
  then have "find (eligible al' rem') [r] \<noteq> None" by simp
  with incremental_exit [OF res] same budget show False by simp
qed

lemma free_calls_never_end_float64:
  assumes "Days_Active r = 0" "0 < Total_Calls r" "Cost_Per_Call r = 0"
  shows "incremental [r] allocation 100 = None"
proof -
  have "float64 100 = 100" by code_simp
  with assms show ?thesis by (intro free_calls_never_end) simp_all
qed

lemma sum_list_strict:
  fixes f g :: "'a \<Rightarrow> nat"
  assumes "\<forall>y\<in>set xs. f y \<le> g y" "x \<in> set xs" "f x < g x"
  shows "sum_list (map f xs) < sum_list (map g xs)"
  using assms
proof (induction xs)
  case Nil
  then show ?case by simp
next
  case (Cons y ys)
  show ?case
  proof (cases "x = y")
    case True
    have "sum_list (map f ys) \<le> sum_list (map g ys)"
      using Cons.prems(1) by (intro sum_list_mono) simp
    with True Cons.prems(3) show ?thesis by simp
  next
    case False
    with Cons.prems have "x \<in> set ys" by simp
    with Cons.IH Cons.prems have "sum_list (map f ys) < sum_list (map g ys)" by simp
    moreover from Cons.prems(1) have "f y \<le> g y" by simp
    ultimately show ?thesis by simp
  qed
qed

lemma headroom_step:
  assumes r: "r \<in> set rs" and below: "get al (Campaign_key r) 0 < ceiling_cap r"
  shows "headroom rs (AList.update (Campaign_key r) (get al (Campaign_key r) 0 + 1) al) < headroom rs al"
  unfolding headroom_def
proof (rule sum_list_strict [OF _ r])
  show "\<forall>y\<in>set rs. nat (ceiling_cap y - get (AList.update (Campaign_key r) (get al (Campaign_key r) 0 + 1) al) (Campaign_key y) 0)
          \<le> nat (ceiling_cap y - get al (Campaign_key y) 0)"
    by (auto simp: get_update)
  show "nat (ceiling_cap r - get (AList.update (Campaign_key r) (get al (Campaign_key r) 0 + 1) al) (Campaign_key r) 0)
          < nat (ceiling_cap r - get al (Campaign_key r) 0)"
    using below by (simp add: get_update)
qed

lemma incremental_terminates:
  assumes days: "\<forall>r\<in>set rs. Days_Active r \<noteq> 0"
  shows "\<exists>y. incremental_with rnd rs al rem = Some y"
proof (induction "headroom rs al" arbitrary: al rem rule: less_induct)
  case less
  show ?case
  proof (cases "0 < rem")
    case False
    then show ?thesis by (subst incremental_with.simps) simp
  next
    case pos: True
    show ?thesis
    proof (cases "find (eligible al rem) rs")
      case None
      with pos show ?thesis by (subst incremental_with.simps) simp
    next
      case (Some r)
      then have r: "r \<in> set rs" and e: "eligible al rem r"
        by (auto simp: find_Some_iff)
      from days r have "Days_Active r \<noteq> 0" by simp
      with e have "get al (Campaign_key r) 0 < ceiling_cap r"
        by (simp add: eligible_def np_less_max_calls)
      from less [OF headroom_step [OF r this]]
      obtain y where "incremental_with rnd rs (AList.update (Campaign_key r) (get al (Campaign_key r) 0 + 1) al)
                        (rnd (rem - Cost_Per_Call r)) = Some y"
        by blast
      with pos Some show ?thesis by (subst incremental_with.simps) simp
    qed
  qed
qed

text \<open>
  C10. If every row that qualifies under \<open>min_roas\<close> has \<open>Days_Active > 0\<close> and
  \<open>Cost_Per_Call \<ge> 0\<close>, \<open>optimize_budget\<close> returns. An iteration of the incremental loop
  that finds an eligible campaign raises its allocation by one, still within its finite
  ceiling, so the headroom of the ranking strictly shrinks; the cost fits the remaining
  budget, so the difference the code then stores (rounded) is nonnegative, not above the
  remaining budget, and strictly below it when the cost is positive. A scan that finds no
  eligible campaign ends the loop with the state unchanged.
\<close>

theorem optimize_budget_terminates:
  assumes rows: "\<forall>r\<in>set campaign_stats. min_roas \<le> ROAS r \<longrightarrow> 0 < Days_Active r \<and> 0 \<le> Cost_Per_Call r"
  shows "(\<exists>res. optimize_budget campaign_stats daily_budget min_calls min_roas = Some res) \<and>
         (0 < rem \<and> find (eligible al rem) (ranked_rows campaign_stats min_roas) = Some r \<longrightarrow>
            get al (Campaign_key r) 0 + 1 \<le> ceiling_cap r \<and>
            get (AList.update (Campaign_key r) (get al (Campaign_key r) 0 + 1) al) (Campaign_key r) 0
              = get al (Campaign_key r) 0 + 1 \<and>
            headroom (ranked_rows campaign_stats min_roas)
                (AList.update (Campaign_key r) (get al (Campaign_key r) 0 + 1) al)
              < headroom (ranked_rows campaign_stats min_roas) al \<and>
            0 \<le> rem - Cost_Per_Call r \<and> rem - Cost_Per_Call r \<le> rem \<and>
            (0 < Cost_Per_Call r \<longrightarrow> rem - Cost_Per_Call r < rem)) \<and>
         (find (eligible al rem) (ranked_rows campaign_stats min_roas) = None \<longrightarrow>
            incremental (ranked_rows campaign_stats min_roas) al rem = Some (al, rem))"
proof (intro conjI impI)
  let ?rs = "ranked_rows campaign_stats min_roas"
  from rows have days: "\<forall>r\<in>set ?rs. Days_Active r \<noteq> 0"
    by (auto simp: set_ranked_rows)
  obtain al0 rem0 where s: "seeding ?rs min_calls ([], daily_budget) = (al0, rem0)"
    by (cases "seeding ?rs min_calls ([], daily_budget)")
  from incremental_terminates [OF days, where al = al0 and rem = rem0 and rnd = float64]
  obtain y where "incremental ?rs al0 rem0 = Some y" by blast
  with s show "\<exists>res. optimize_budget campaign_stats daily_budget min_calls min_roas = Some res"
    by (cases y) (simp add: optimize_budget_with_def ranked_rows_def Let_def)
next
  assume "find (eligible al rem) (ranked_rows campaign_stats min_roas) = None"
  then show "incremental (ranked_rows campaign_stats min_roas) al rem = Some (al, rem)"
    by (subst incremental_with.simps) simp
next
  let ?rs = "ranked_rows campaign_stats min_roas"
  assume "0 < rem \<and> find (eligible al rem) ?rs = Some r"
  then have r: "r \<in> set ?rs" and e: "eligible al rem r"
    by (auto simp: find_Some_iff)
  with rows have d: "Days_Active r \<noteq> 0" and c: "0 \<le> Cost_Per_Call r"
    by (auto simp: set_ranked_rows)
  from e d have below: "get al (Campaign_key r) 0 < ceiling_cap r"
    by (simp add: eligible_def np_less_max_calls)
  then show "get al (Campaign_key r) 0 + 1 \<le> ceiling_cap r" by simp
  show "get (AList.update (Campaign_key r) (get al (Campaign_key r) 0 + 1) al) (Campaign_key r) 0
              = get al (Campaign_key r) 0 + 1"
    by (simp add: get_update)
  show "headroom ?rs (AList.update (Campaign_key r) (get al (Campaign_key r) 0 + 1) al) < headroom ?rs al"
    using r below by (rule headroom_step)
  from e show "0 \<le> rem - Cost_Per_Call r" by (simp add: eligible_def)
  from c show "rem - Cost_Per_Call r \<le> rem" by simp
  assume "0 < Cost_Per_Call r"
  then show "rem - Cost_Per_Call r < rem" by simp
qed

theorem optimize_budget_terminates_witness:
  "1 \<le> ROAS (scenario_A\<lparr>Cost_Per_Call := 0\<rparr>) \<and>
   0 < Days_Active (scenario_A\<lparr>Cost_Per_Call := 0\<rparr>) \<and>
   0 \<le> Cost_Per_Call (scenario_A\<lparr>Cost_Per_Call := 0\<rparr>) \<and>
   optimize_budget [scenario_A\<lparr>Cost_Per_Call := 0\<rparr>] 200 1 1 \<noteq> None \<and>
   optimize_budget [scenario_A\<lparr>Cost_Per_Call := 0\<rparr>] 200 1 1 =
     Some (Returns (Some [(''A'', 15)]) 200) \<and>
   find (eligible [(''A'', 1)] 200) (ranked_rows [scenario_A\<lparr>Cost_Per_Call := 0\<rparr>] 1)
     = Some (scenario_A\<lparr>Cost_Per_Call := 0\<rparr>) \<and>
   headroom (ranked_rows [scenario_A\<lparr>Cost_Per_Call := 0\<rparr>] 1) [(''A'', 2)]
     < headroom (ranked_rows [scenario_A\<lparr>Cost_Per_Call := 0\<rparr>] 1) [(''A'', 1)] \<and>
   find (eligible [(''A'', 15)] 200) (ranked_rows [scenario_A\<lparr>Cost_Per_Call := 0\<rparr>] 1) = None \<and>
   incremental (ranked_rows [scenario_A\<lparr>Cost_Per_Call := 0\<rparr>] 1) [(''A'', 15)] 200
     = Some ([(''A'', 15)], 200)"
proof -
  let ?r = "scenario_A\<lparr>Cost_Per_Call := 0\<rparr>"
  have row: "1 \<le> ROAS ?r" "0 < Days_Active ?r" "0 \<le> Cost_Per_Call ?r"
    by (simp_all add: scenario_A_def)
  then have h: "\<forall>r\<in>set [?r]. 1 \<le> ROAS r \<longrightarrow> 0 < Days_Active r \<and> 0 \<le> Cost_Per_Call r"
    by simp
  from optimize_budget_terminates [OF h, of 200 1]
  have ret: "optimize_budget [?r] 200 1 1 \<noteq> None" by simp
  have res: "optimize_budget [?r] 200 1 1 = Some (Returns (Some [(''A'', 15)]) 200)"
    by code_simp
  have f1: "find (eligible [(''A'', 1)] 200) (ranked_rows [?r] 1) = Some ?r" by code_simp
  have f2: "find (eligible [(''A'', 15)] 200) (ranked_rows [?r] 1) = None" by code_simp
  have u: "AList.update (Campaign_key ?r) (get [(''A'', 1)] (Campaign_key ?r) 0 + 1) [(''A'', 1)] = [(''A'', 2)]"
    by code_simp
  from optimize_budget_terminates [OF h, of 200 1 200 "[(''A'', 1)]" ?r] f1 u
  have step: "headroom (ranked_rows [?r] 1) [(''A'', 2)] < headroom (ranked_rows [?r] 1) [(''A'', 1)]"
    by simp
  from optimize_budget_terminates [OF h, of 200 1 200 "[(''A'', 15)]" ?r] f2
  have exit: "incremental (ranked_rows [?r] 1) [(''A'', 15)] 200 = Some ([(''A'', 15)], 200)"
    by simp
  from row ret res f1 step f2 exit show ?thesis by blast
qed

section \<open>Properties of the aggregator\<close>

text \<open>
  C8. Two daily records of one campaign with revenues 100 and 200 and lead costs 50 and
  50 aggregate to one row with \<open>Total_Revenue = 300\<close>, \<open>Total_Cost = 100\<close>, \<open>ROAS = 3\<close>
  and \<open>Days_Active = 2\<close>, whatever the other columns hold.
\<close>

theorem two_day_aggregation:
  "map (\<lambda>g. (Campaign_key g, Total_Revenue g, Total_Cost g, ROAS g, Days_Active g))
     (calculate_campaign_metrics
        [\<lparr> Date = Some d1, Agency = a1, Campaign = c, Revenue = 100, Lead_Cost = 50,
            Total_Calls_daily = t1, Paid_Calls = p1, Unique_Sales = s1 \<rparr>,
         \<lparr> Date = Some d2, Agency = a2, Campaign = c, Revenue = 200, Lead_Cost = 50,
            Total_Calls_daily = t2, Paid_Calls = p2, Unique_Sales = s2 \<rparr>] None)
   = [(c, 300, 100, 3, 2)]"
  by (simp add: calculate_campaign_metrics_def filter_agency_def group_keys_def group_rows_def
      group_metrics_def replace_value_def Let_def)

lemma replace_value_nonzero: "replace_value 0 1 x \<noteq> 0"
  by (simp add: replace_value_def)

text \<open>
  C7. In every row of the aggregated table each ratio is computed with a denominator
  that went through \<open>replace(0, 1)\<close> and is therefore not zero; a zero \<open>Total_Cost\<close>
  gives \<open>ROAS = Total_Revenue\<close>, a zero \<open>Total_Paid_Calls\<close> gives
  \<open>Cost_Per_Call = Total_Cost\<close>, and a zero \<open>Total_Calls\<close> gives
  \<open>Revenue_Per_Call = Total_Revenue\<close> and \<open>Conversion_Rate = Total_Sales * 100\<close>.
\<close>

theorem zero_denominators_replaced:
  "\<forall>g\<in>set (calculate_campaign_metrics df agency).
     replace_value 0 1 (Total_Cost g) \<noteq> 0 \<and>
     replace_value 0 1 (Total_Paid_Calls g) \<noteq> 0 \<and>
     replace_value 0 1 (Total_Calls g) \<noteq> 0 \<and>
     ROAS g = Total_Revenue g / replace_value 0 1 (Total_Cost g) \<and>
     Cost_Per_Call g = Total_Cost g / replace_value 0 1 (Total_Paid_Calls g) \<and>
     Revenue_Per_Call g = Total_Revenue g / replace_value 0 1 (Total_Calls g) \<and>
     Conversion_Rate g = Total_Sales g / replace_value 0 1 (Total_Calls g) * 100 \<and>
     (Total_Cost g = 0 \<longrightarrow> ROAS g = Total_Revenue g) \<and>
     (Total_Paid_Calls g = 0 \<longrightarrow> Cost_Per_Call g = Total_Cost g) \<and>
     (Total_Calls g = 0 \<longrightarrow>
        Revenue_Per_Call g = Total_Revenue g \<and> Conversion_Rate g = Total_Sales g * 100)"
  by (auto simp: calculate_campaign_metrics_def group_metrics_def replace_value_def Let_def)

theorem zero_denominators_replaced_witness:
  "calculate_campaign_metrics [zero_volume_day] None \<noteq> [] \<and>
   (let g = hd (calculate_campaign_metrics [zero_volume_day] None)
    in g \<in> set (calculate_campaign_metrics [zero_volume_day] None) \<and>
       Total_Cost g = 0 \<and> Total_Paid_Calls g = 0 \<and> Total_Calls g = 0 \<and>
       ROAS g = Total_Revenue g \<and> ROAS g = 100 \<and> Cost_Per_Call g = 0 \<and>
       Revenue_Per_Call g = 100 \<and> Conversion_Rate g = 200)"
  using zero_denominators_replaced [of "[zero_volume_day]" None]
  by (simp add: calculate_campaign_metrics_def filter_agency_def group_keys_def group_rows_def
      group_metrics_def replace_value_def Let_def zero_volume_day_def)

lemma filter_agency_subset: "set (filter_agency agency df) \<subseteq> set df"
  by (auto simp: filter_agency_def split: option.splits)

lemma group_rows_nonempty:
  "k \<in> set (group_keys df) \<Longrightarrow> group_rows df k \<noteq> []"
  by (auto simp: group_keys_def group_rows_def filter_empty_conv)

lemma days_active_group:
  assumes "\<forall>r\<in>set g. Date r \<noteq> None"
  shows "Days_Active (group_metrics k g) = int (length g)"
proof -
  from assms have "filter (\<lambda>r. Date r \<noteq> None) g = g" by (simp add: filter_id_conv)
  then show ?thesis by (simp add: group_metrics_def Let_def)
qed

text \<open>
  C9 (as the code behaves). If every record carries a date, as the loaders guarantee by
  dropping the rows whose date is missing, every row of the aggregated table has
  \<open>Days_Active \<ge> 1\<close>, and the capacity ceiling \<open>Total_Calls / Days_Active * 1.5\<close> of the
  optimizer is a finite number on it.
\<close>

theorem days_active_positive:
  assumes dates: "\<forall>r\<in>set df. Date r \<noteq> None"
  shows "\<forall>g\<in>set (calculate_campaign_metrics df agency).
           1 \<le> Days_Active g \<and>
           max_calls g = Finite (Total_Calls g / of_int (Days_Active g) * (3 / 2))"
proof
  fix g assume "g \<in> set (calculate_campaign_metrics df agency)"
  then obtain k where k: "k \<in> set (group_keys (filter_agency agency df))"
    and g: "g = group_metrics k (group_rows (filter_agency agency df) k)"
    by (auto simp: calculate_campaign_metrics_def Let_def)
  let ?grp = "group_rows (filter_agency agency df) k"
  have "set ?grp \<subseteq> set df"
    using filter_agency_subset [of agency df] by (auto simp: group_rows_def)
  with dates have "\<forall>r\<in>set ?grp. Date r \<noteq> None" by auto
  then have "Days_Active g = int (length ?grp)"
    unfolding g by (rule days_active_group)
  moreover from group_rows_nonempty [OF k] have "1 \<le> int (length ?grp)"
    by (cases ?grp) simp_all
  ultimately have pos: "1 \<le> Days_Active g" by simp
  then have "max_calls g = Finite (Total_Calls g / of_int (Days_Active g) * (3 / 2))"
    by (simp add: max_calls_def true_divide_def)
  with pos show "1 \<le> Days_Active g \<and>
           max_calls g = Finite (Total_Calls g / of_int (Days_Active g) * (3 / 2))" by simp
qed

theorem days_active_positive_witness:
  "map Date (dropna_Date [zero_volume_day, zero_volume_day\<lparr>Date := None\<rparr>]) = [Some 1] \<and>
   calculate_campaign_metrics
     (dropna_Date [zero_volume_day, zero_volume_day\<lparr>Date := None\<rparr>]) None \<noteq> [] \<and>
   1 \<le> Days_Active (hd (calculate_campaign_metrics
     (dropna_Date [zero_volume_day, zero_volume_day\<lparr>Date := None\<rparr>]) None)) \<and>
   max_calls (hd (calculate_campaign_metrics
     (dropna_Date [zero_volume_day, zero_volume_day\<lparr>Date := None\<rparr>]) None)) = Finite 0"
proof -
  let ?df = "dropna_Date [zero_volume_day, zero_volume_day\<lparr>Date := None\<rparr>]"
  let ?g = "hd (calculate_campaign_metrics ?df None)"
  have d: "map Date ?df = [Some 1]" by code_simp
  then have h: "\<forall>r\<in>set ?df. Date r \<noteq> None"
    by (simp add: dropna_Date_def)
  have ne: "calculate_campaign_metrics ?df None \<noteq> []" by code_simp
  then have mem: "?g \<in> set (calculate_campaign_metrics ?df None)" by (rule hd_in_set)
  have t: "Total_Calls ?g = 0" by code_simp
  from days_active_positive [OF h, of None] mem
  have "1 \<le> Days_Active ?g \<and> max_calls ?g = Finite (Total_Calls ?g / of_int (Days_Active ?g) * (3 / 2))"
    by blast
  with t have "1 \<le> Days_Active ?g" "max_calls ?g = Finite 0" by simp_all
  with d ne show ?thesis by blast
qed

text \<open>
  C9 (as stated) fails for a record set that is not empty but holds a record without a
  date: \<^verbatim>\<open>count\<close> skips the missing date, \<open>Days_Active\<close> is 0 and the ceiling is NaN.
\<close>

theorem missing_date_not_counted:
  "map Days_Active (calculate_campaign_metrics [zero_volume_day\<lparr>Date := None\<rparr>] None) = [0] \<and>
   map max_calls (calculate_campaign_metrics [zero_volume_day\<lparr>Date := None\<rparr>] None) = [NaN]"
  by code_simp

end
